theory Spec2Isabelle
  imports Main "HOL-Library.Char_ord" "HOL-Library.List_Lexorder" "HOL-Library.AList"
    "HOL-Library.Log_Nat"
begin

section \<open>Strings\<close>

text \<open>
  A Python \<open>str\<close> is modelled as a \<open>string\<close> whose characters are the code points
  0..255 (the Latin-1 block of Unicode); texts with code points beyond that block are
  outside the model. \<open>lower_chr\<close> is \<open>str.lower\<close> on one such code point: the upper-case
  letters are 0x41..0x5A and 0xC0..0xDE without 0xD7, each 32 below its lower-case form.
\<close>

definition lower_chr :: "char \<Rightarrow> char" where
  "lower_chr c = (let n = (of_char c :: nat) in
     if (65 \<le> n \<and> n \<le> 90) \<or> (192 \<le> n \<and> n \<le> 222 \<and> n \<noteq> 215)
     then char_of (n + 32) else c)"

definition lower :: "string \<Rightarrow> string" where
  "lower s = map lower_chr s"

section \<open>Keyword Counter: \<open>count_keywords\<close>\<close>

text \<open>
  \<open>re.compile(re.escape(keyword), re.IGNORECASE)\<close> is a pattern that matches the keyword
  literally, character by character, ignoring case. \<open>match_here pat text\<close> says that the
  pattern matches at the start of \<open>text\<close>.
\<close>

fun match_here :: "string \<Rightarrow> string \<Rightarrow> bool" where
  "match_here [] text = True"
| "match_here (p # ps) [] = False"
| "match_here (p # ps) (c # cs) = (lower_chr p = lower_chr c \<and> match_here ps cs)"

text \<open>
  \<open>len(pattern.findall(text))\<close>: the scan of \<open>re\<close> tries the pattern at the current
  position; on a match it counts it and goes on behind the match (one character further
  when the match is empty), otherwise it goes on one character further. At the end of the
  text the pattern is tried once more, where only the empty pattern matches.
\<close>

function findall_count :: "string \<Rightarrow> string \<Rightarrow> nat" where
  "findall_count pat [] = (if match_here pat [] then 1 else 0)"
| "findall_count pat (c # cs) =
     (if match_here pat (c # cs)
      then Suc (findall_count pat (drop (max 1 (length pat)) (c # cs)))
      else findall_count pat cs)"
  by pat_completeness auto
termination
  by (relation "measure (\<lambda>(pat, text). length text)") auto

text \<open>
  A count record is the tuple \<open>(keyword, count, value, subtotal)\<close>. The keyword dictionary
  is the list of its items in insertion order; Python's integers are unbounded.
\<close>

type_synonym count_record = "string \<times> int \<times> int \<times> int"

fun count_keywords :: "string \<Rightarrow> (string \<times> int) list \<Rightarrow> count_record list" where
  "count_keywords text [] = []"
| "count_keywords text ((keyword, val) # items) =
     (let count = int (findall_count keyword text);
          subtotal = count * val
      in (keyword, count, val, subtotal) # count_keywords text items)"

subsection \<open>The count as the specification words it\<close>

text \<open>
  \<open>occurrences k T\<close> lists, in increasing order, every position of \<open>T\<close> at which the
  literal \<open>k\<close> occurs when case is ignored, overlapping or not.
  \<open>leftmost_disjoint len lo ps\<close> walks such a list from left to right and keeps a position
  when it does not lie inside the occurrence kept before it (\<open>lo\<close> is the first position
  that is free again). \<open>occurrence_count\<close> is the number of positions kept.
\<close>

definition occurrences :: "string \<Rightarrow> string \<Rightarrow> nat list" where
  "occurrences k T =
     filter (\<lambda>i. lower (take (length k) (drop i T)) = lower k) [0..<Suc (length T)]"

fun leftmost_disjoint :: "nat \<Rightarrow> nat \<Rightarrow> nat list \<Rightarrow> nat list" where
  "leftmost_disjoint len lo [] = []"
| "leftmost_disjoint len lo (p # ps) =
     (if lo \<le> p then p # leftmost_disjoint len (p + len) ps
      else leftmost_disjoint len lo ps)"

definition occurrence_count :: "string \<Rightarrow> string \<Rightarrow> nat" where
  "occurrence_count k T = length (leftmost_disjoint (length k) 0 (occurrences k T))"

section \<open>Decimal numerals: \<open>str\<close> of an integer\<close>

function str_nat :: "nat \<Rightarrow> string" where
  "str_nat n = (if n < 10 then [char_of (48 + n)]
                else str_nat (n div 10) @ [char_of (48 + n mod 10)])"
  by pat_completeness auto
termination
  by (relation "measure id") auto

declare str_nat.simps [simp del]

definition str_int :: "int \<Rightarrow> string" where
  "str_int i = (if i < 0 then CHR ''-'' # str_nat (nat (- i)) else str_nat (nat i))"

section \<open>Reading the keyword table: \<open>get_keywords_from_table\<close>\<close>

text \<open>
  \<open>str.strip()\<close> removes the white space of both ends; among the code points 0..255 the
  white-space characters of \<open>str\<close> are 9..13, 28..32, 0x85 and 0xA0.
\<close>

definition is_space :: "char \<Rightarrow> bool" where
  "is_space c = ((of_char c :: nat) \<in> {9, 10, 11, 12, 13, 28, 29, 30, 31, 32, 133, 160})"

definition strip :: "string \<Rightarrow> string" where
  "strip s = rev (dropWhile is_space (rev (dropWhile is_space s)))"

text \<open>
  \<open>int(s)\<close> on a string: white space around the numeral is ignored (here 9..13, 32, 0x85
  and 0xA0), then comes an optional sign and decimal digits, where single underscores may
  stand between two digits. Anything else raises \<open>ValueError\<close>, which is the value \<open>None\<close>.
\<close>

definition is_int_space :: "char \<Rightarrow> bool" where
  "is_int_space c = ((of_char c :: nat) \<in> {9, 10, 11, 12, 13, 32, 133, 160})"

definition is_digit :: "char \<Rightarrow> bool" where
  "is_digit c = (48 \<le> (of_char c :: nat) \<and> (of_char c :: nat) \<le> 57)"

definition digit_value :: "char \<Rightarrow> int" where
  "digit_value c = int (of_char c) - 48"

fun int_digits :: "int \<Rightarrow> string \<Rightarrow> int option" where
  "int_digits acc [] = None"
| "int_digits acc [c] = (if is_digit c then Some (acc * 10 + digit_value c) else None)"
| "int_digits acc (c # d # ds) =
     (if is_digit c
      then (if d = CHR ''_'' then int_digits (acc * 10 + digit_value c) ds
            else int_digits (acc * 10 + digit_value c) (d # ds))
      else None)"

definition py_int :: "string \<Rightarrow> int option" where
  "py_int s =
     (case rev (dropWhile is_int_space (rev (dropWhile is_int_space s))) of
        [] \<Rightarrow> None
      | c # cs \<Rightarrow>
          if c = CHR ''-'' then map_option uminus (int_digits 0 cs)
          else if c = CHR ''+'' then int_digits 0 cs
          else int_digits 0 (c # cs))"

text \<open>
  A message box is its kind, its title and its text. A table row is the pair of its
  keyword cell and its value cell; a cell that was never filled has no item (\<open>None\<close>).
  The dictionary \<open>keywords\<close> is the list of its items in insertion order, and
  \<open>keywords[keyword] = value\<close> is \<open>AList.update\<close>: a key that is present keeps its place
  and takes the new value, a new key goes to the end.
\<close>

datatype icon = Warning | Critical | Information

type_synonym message_box = "icon \<times> string \<times> string"

type_synonym table_row = "string option \<times> string option"

definition invalid_value_warning :: "string \<Rightarrow> message_box" where
  "invalid_value_warning keyword =
     (Warning, ''Invalid Value'',
      ''Value for keyword '' @ [char_of (39::nat)] @ keyword @ [char_of (39::nat)]
        @ '' must be an integer. Skipping this entry.'')"

fun get_keywords_rows ::
  "table_row list \<Rightarrow> (string \<times> int) list \<Rightarrow> message_box list
     \<Rightarrow> (string \<times> int) list \<times> message_box list" where
  "get_keywords_rows [] keywords boxes = (keywords, boxes)"
| "get_keywords_rows ((Some keyword_text, Some value_item_text) # rows) keywords boxes =
     (let keyword = strip keyword_text;
          value_text = strip value_item_text
      in if keyword \<noteq> [] \<and> value_text \<noteq> []
         then (case py_int value_text of
                 Some val \<Rightarrow> get_keywords_rows rows (AList.update keyword val keywords) boxes
               | None \<Rightarrow>
                   get_keywords_rows rows keywords (boxes @ [invalid_value_warning keyword]))
         else get_keywords_rows rows keywords boxes)"
| "get_keywords_rows (_ # rows) keywords boxes = get_keywords_rows rows keywords boxes"

definition get_keywords_from_table ::
  "table_row list \<Rightarrow> (string \<times> int) list \<times> message_box list" where
  "get_keywords_from_table rows = get_keywords_rows rows [] []"

subsection \<open>The table as the specification words it\<close>

text \<open>
  \<open>row_texts\<close> gives the trimmed keyword and value texts of a row that has both cells,
  both non-empty after trimming; any other row has no texts (\<open>None\<close>). Among the rows
  that have texts, \<open>valid_entries\<close> are the entries of the rows whose value parses, in row
  order, and \<open>skipped_keywords\<close> are the keywords of the rows whose value does not parse.
  \<open>last_value k es\<close> is the value of the last entry of \<open>es\<close> for \<open>k\<close>.
\<close>

definition row_texts :: "table_row \<Rightarrow> (string \<times> string) option" where
  "row_texts r =
     (case r of
        (Some k, Some v) \<Rightarrow>
          if strip k \<noteq> [] \<and> strip v \<noteq> [] then Some (strip k, strip v) else None
      | _ \<Rightarrow> None)"

definition row_entry :: "table_row \<Rightarrow> (string \<times> int) option" where
  "row_entry r =
     (case row_texts r of
        Some (k, vt) \<Rightarrow> map_option (Pair k) (py_int vt)
      | None \<Rightarrow> None)"

definition row_skipped :: "table_row \<Rightarrow> string option" where
  "row_skipped r =
     (case row_texts r of
        Some (k, vt) \<Rightarrow> (if py_int vt = None then Some k else None)
      | None \<Rightarrow> None)"

definition valid_entries :: "table_row list \<Rightarrow> (string \<times> int) list" where
  "valid_entries rows = List.map_filter row_entry rows"

definition skipped_keywords :: "table_row list \<Rightarrow> string list" where
  "skipped_keywords rows = List.map_filter row_skipped rows"

definition last_value :: "string \<Rightarrow> (string \<times> int) list \<Rightarrow> int option" where
  "last_value k es =
     (case filter (\<lambda>e. fst e = k) es of
        [] \<Rightarrow> None
      | e # es' \<Rightarrow> Some (snd (last (e # es'))))"

section \<open>The application state and the result table\<close>

record progress_dialog =
  pd_value :: int
  pd_label :: string
  pd_visible :: bool

record app =
  pdf_path :: "string option"
  progress_dlg :: "progress_dialog option"
  current_results :: "count_record list option"
  extracted_text :: string
  results_table :: "string list list"
  export_enabled :: bool
  boxes_shown :: "message_box list"

definition subtotal :: "count_record \<Rightarrow> int" where
  "subtotal r = (case r of (keyword, count, val, sub) \<Rightarrow> sub)"

text \<open>The loop \<open>for ... in results: grand_total += subtotal\<close>, from a starting total.\<close>

fun grand_total_loop :: "count_record list \<Rightarrow> int \<Rightarrow> int" where
  "grand_total_loop [] grand_total = grand_total"
| "grand_total_loop ((keyword, count, val, sub) # results) grand_total =
     grand_total_loop results (grand_total + sub)"

text \<open>
  \<open>sorted(results, key=lambda x: x[0].lower())\<close>: Python's \<open>sorted\<close> is a stable sort by the
  key, and strings compare lexicographically by code point.
\<close>

definition sorted_results :: "count_record list \<Rightarrow> count_record list" where
  "sorted_results results = sort_key (\<lambda>x. lower (fst x)) results"

definition result_row :: "count_record \<Rightarrow> string list" where
  "result_row r =
     (case r of (keyword, count, val, sub) \<Rightarrow> [keyword, str_int count, str_int val, str_int sub])"

definition grand_total_row :: "int \<Rightarrow> string list" where
  "grand_total_row grand_total = [''GRAND TOTAL'', [], [], str_int grand_total]"

definition display_results :: "app \<Rightarrow> count_record list \<Rightarrow> app" where
  "display_results st results =
     (let grand_total = grand_total_loop results 0
      in st\<lparr>current_results := Some results,
            results_table := map result_row (sorted_results results) @ [grand_total_row grand_total],
            export_enabled := True\<rparr>)"

definition display_extracted_text :: "app \<Rightarrow> string \<Rightarrow> app" where
  "display_extracted_text st text =
     (let max_chars = 5000;
          display_text = take max_chars text
      in st\<lparr>extracted_text :=
              (if length text > max_chars
               then display_text @ [char_of (10::nat), char_of (10::nat)]
                      @ ''... (showing first '' @ str_nat max_chars @ '' characters of ''
                      @ str_nat (length text) @ '' total)''
               else display_text)\<rparr>)"

text \<open>The state after \<open>__init__\<close>: nothing selected, nothing computed, export disabled.\<close>

definition initial_app :: app where
  "initial_app =
     \<lparr>pdf_path = None, progress_dlg = None, current_results = None, extracted_text = [],
      results_table = [], export_enabled = False, boxes_shown = []\<rparr>"

subsection \<open>Spreadsheet export: \<open>export_to_excel\<close>\<close>

text \<open>
  A worksheet cell holds a string or an integer. \<open>export_to_excel\<close> takes the path the
  file dialog returned (empty when the user cancelled) and the outcome of \<open>wb.save\<close>
  (the message of the exception it raised, if any); it returns the new state and the
  worksheet that was saved, if one was.
\<close>

datatype xl_cell = XStr string | XInt int

definition xl_row :: "count_record \<Rightarrow> xl_cell list" where
  "xl_row r = (case r of (keyword, count, val, sub) \<Rightarrow> [XStr keyword, XInt count, XInt val, XInt sub])"

definition worksheet_rows :: "count_record list \<Rightarrow> xl_cell list list" where
  "worksheet_rows results =
     (let headers = [XStr ''Keyword'', XStr ''Count'', XStr ''Value'', XStr ''Subtotal''];
          sorted = sorted_results results;
          grand_total = grand_total_loop sorted 0
      in headers # map xl_row sorted
           @ [[XStr ''GRAND TOTAL'', XStr [], XStr [], XInt grand_total]])"

definition export_to_excel ::
  "app \<Rightarrow> string \<Rightarrow> string option \<Rightarrow> app \<times> (string \<times> xl_cell list list) option" where
  "export_to_excel st file_path save_error =
     (case current_results st of
        None \<Rightarrow>
          (st\<lparr>boxes_shown := boxes_shown st
                 @ [(Warning, ''No Results'', ''No results to export. Please calculate first.'')]\<rparr>,
           None)
      | Some results \<Rightarrow>
          if results = [] then
            (st\<lparr>boxes_shown := boxes_shown st
                   @ [(Warning, ''No Results'', ''No results to export. Please calculate first.'')]\<rparr>,
             None)
          else if file_path = [] then (st, None)
          else (case save_error of
                  Some e \<Rightarrow>
                    (st\<lparr>boxes_shown := boxes_shown st
                           @ [(Critical, ''Export Error'',
                               ''Could not export to Excel:'' @ [char_of (10::nat)] @ e)]\<rparr>,
                     None)
                | None \<Rightarrow>
                    (st\<lparr>boxes_shown := boxes_shown st
                           @ [(Information, ''Export Successful'',
                               ''Results exported successfully to:'' @ [char_of (10::nat)] @ file_path)]\<rparr>,
                     Some (file_path, worksheet_rows results))))"

subsection \<open>The end of a recognition run: \<open>on_ocr_finished\<close>\<close>

definition close_progress_dialog :: "app \<Rightarrow> app" where
  "close_progress_dialog st =
     (case progress_dlg st of
        None \<Rightarrow> st
      | Some d \<Rightarrow> st\<lparr>progress_dlg := Some (d\<lparr>pd_visible := False\<rparr>)\<rparr>)"

definition no_text_found :: message_box where
  "no_text_found =
     (Warning, ''No Text Found'',
      ''OCR completed but no text was found in the PDF. ''
        @ ''The PDF might be empty or the images might not contain readable text.'')"

definition on_ocr_finished :: "app \<Rightarrow> string \<Rightarrow> (string \<times> int) list \<Rightarrow> app" where
  "on_ocr_finished st text keywords =
     (let st1 = close_progress_dialog st
      in if strip text = []
         then st1\<lparr>boxes_shown := boxes_shown st1 @ [no_text_found]\<rparr>
         else (let st2 = display_extracted_text st1 text;
                   results = count_keywords text keywords
               in display_results st2 results))"


section \<open>Double-precision arithmetic\<close>

text \<open>
  Python's \<open>float\<close> is an IEEE 754 double. A double is modelled by the rational number it
  denotes, and every operation returns the exact result rounded to the nearest double,
  ties to the even significand. \<open>ilog2 q\<close> is the binary exponent \<open>\<lfloor>log\<^sub>2 q\<rfloor>\<close> of a positive
  rational, so \<open>q / 2 powi (ilog2 q - 52)\<close> lies in \<open>[2\<^sup>5\<^sup>2, 2\<^sup>5\<^sup>3)\<close> and rounding it to an
  integer gives the 53-bit significand. The exponent is not bounded: overflow and
  subnormal numbers (quotients below \<open>2\<^sup>-\<^sup>1\<^sup>0\<^sup>2\<^sup>2\<close>) are outside the model, which no page
  count reaches.
\<close>

definition round_half_even :: "rat \<Rightarrow> int" where
  "round_half_even x =
     (let f = \<lfloor>x\<rfloor>; d = x - of_int f
      in if d < 1 / 2 then f
         else if 1 / 2 < d then f + 1
         else if even f then f else f + 1)"

definition ilog2 :: "rat \<Rightarrow> int" where
  "ilog2 q =
     (let (a, b) = quotient_of q; d = bitlen a - bitlen b
      in if 2 powi d \<le> q then d else d - 1)"

definition float_round :: "rat \<Rightarrow> rat" where
  "float_round q =
     (if q = 0 then 0
      else (let e = ilog2 \<bar>q\<bar> - 52
            in sgn q * of_int (round_half_even (\<bar>q\<bar> / 2 powi e)) * 2 powi e))"

text \<open>
  \<open>a / b\<close> on two integers is the correctly rounded quotient; \<open>x * c\<close> is the rounded
  product; \<open>int(x)\<close> truncates towards zero.
\<close>

definition float_div :: "int \<Rightarrow> int \<Rightarrow> rat" where
  "float_div a b = float_round (of_int a / of_int b)"

definition float_mul :: "rat \<Rightarrow> rat \<Rightarrow> rat" where
  "float_mul x y = float_round (x * y)"

definition py_int_of_float :: "rat \<Rightarrow> int" where
  "py_int_of_float x = (if 0 \<le> x then \<lfloor>x\<rfloor> else \<lceil>x\<rceil>)"

section \<open>The recognition worker: \<open>OCRWorker.run\<close>\<close>

text \<open>
  The three percentages computed for a page, as the loop body writes them:
  \<open>5 + int(((page_num - 1) / total_pages) * 90)\<close>, that plus \<open>int((1 / total_pages) * 9)\<close>,
  and \<open>5 + int((page_num / total_pages) * 90)\<close>.
\<close>

definition progress_percent :: "nat \<Rightarrow> nat \<Rightarrow> int" where
  "progress_percent total_pages page_num =
     5 + py_int_of_float (float_mul (float_div (int page_num - 1) (int total_pages)) 90)"

definition conversion_progress :: "nat \<Rightarrow> nat \<Rightarrow> int" where
  "conversion_progress total_pages page_num =
     progress_percent total_pages page_num
       + py_int_of_float (float_mul (float_div 1 (int total_pages)) 9)"

definition ocr_progress :: "nat \<Rightarrow> nat \<Rightarrow> int" where
  "ocr_progress total_pages page_num =
     5 + py_int_of_float (float_mul (float_div (int page_num) (int total_pages)) 90)"

text \<open>
  What a run does that is visible from outside, in order: the signals \<open>progress\<close>,
  \<open>finished\<close> and \<open>error\<close> it emits, and its calls of the page renderer
  (\<open>convert_from_path\<close> for one page) and of the recognition service (\<open>image_to_string\<close>
  on the image of a page).
\<close>

datatype event =
  Progress int string
| Finished string
| Error string
| ConvertFromPath nat
| ImageToString nat

text \<open>
  The document and the two services, as far as the run depends on them: \<open>fitz_open\<close> is
  the page count of the opened file, \<open>convert_from_path\<close> the images rendered for a page,
  \<open>image_to_string\<close> the text recognised in an image; each may raise instead, which is
  \<open>Inl\<close> of the exception's text.
\<close>

record 'i document =
  fitz_open :: "string + nat"
  convert_from_path :: "nat \<Rightarrow> string + 'i list"
  image_to_string :: "'i \<Rightarrow> string + string"

definition converting_msg :: "nat \<Rightarrow> nat \<Rightarrow> string" where
  "converting_msg page_num total_pages =
     ''Converting page '' @ str_nat page_num @ '' of '' @ str_nat total_pages @ '' to image...''"

definition extracting_msg :: "nat \<Rightarrow> nat \<Rightarrow> string" where
  "extracting_msg page_num total_pages =
     ''Extracting text from page '' @ str_nat page_num @ '' of '' @ str_nat total_pages @ ''...''"

definition ocr_error :: "string \<Rightarrow> event" where
  "ocr_error e = Error (''OCR Error: '' @ e)"

text \<open>
  The loop \<open>for page_num in range(1, total_pages + 1)\<close> over the pages still to do, with
  the text accumulated so far; after the last page come the 100% event and \<open>finished\<close>.
  An exception leaves the loop and is reported by the handler of \<open>run\<close>.
\<close>

fun page_loop :: "'i document \<Rightarrow> nat \<Rightarrow> nat list \<Rightarrow> string \<Rightarrow> event list" where
  "page_loop doc total_pages [] text = [Progress 100 ''OCR complete!'', Finished text]"
| "page_loop doc total_pages (page_num # pages) text =
     Progress (conversion_progress total_pages page_num) (converting_msg page_num total_pages)
     # ConvertFromPath page_num
     # (case convert_from_path doc page_num of
          Inl e \<Rightarrow> [ocr_error e]
        | Inr [] \<Rightarrow> page_loop doc total_pages pages text
        | Inr (img # _) \<Rightarrow>
            Progress (ocr_progress total_pages page_num) (extracting_msg page_num total_pages)
            # ImageToString page_num
            # (case image_to_string doc img of
                 Inl e \<Rightarrow> [ocr_error e]
               | Inr page_text \<Rightarrow>
                   page_loop doc total_pages pages (text @ page_text @ [char_of (10::nat)])))"

definition run :: "'i document \<Rightarrow> event list" where
  "run doc =
     Progress 0 ''Opening PDF and counting pages...''
     # (case fitz_open doc of
          Inl e \<Rightarrow> [ocr_error e]
        | Inr total_pages \<Rightarrow>
            if total_pages = 0 then [Error ''No pages found in PDF'']
            else Progress 5 (''Found '' @ str_nat total_pages @ '' page(s). Starting conversion...'')
                 # page_loop doc total_pages [1..<total_pages + 1] [])"

text \<open>The percentages of the progress events of a trace, and its terminal signal.\<close>

fun percents :: "event list \<Rightarrow> int list" where
  "percents [] = []"
| "percents (Progress n msg # evs) = n # percents evs"
| "percents (_ # evs) = percents evs"

fun is_terminal :: "event \<Rightarrow> bool" where
  "is_terminal (Finished text) = True"
| "is_terminal (Error msg) = True"
| "is_terminal _ = False"

fun is_call :: "event \<Rightarrow> bool" where
  "is_call (ConvertFromPath page_num) = True"
| "is_call (ImageToString page_num) = True"
| "is_call _ = False"

definition terminal_signal :: "event list \<Rightarrow> event option" where
  "terminal_signal evs = (case filter is_terminal evs of [] \<Rightarrow> None | e # _ \<Rightarrow> Some e)"

subsection \<open>The worker thread and its cancellation\<close>







subsection \<open>The handlers of the worker's signals\<close>

definition on_ocr_progress :: "app \<Rightarrow> int \<Rightarrow> string \<Rightarrow> app" where
  "on_ocr_progress st val message =
     (case progress_dlg st of
        None \<Rightarrow> st
      | Some d \<Rightarrow> st\<lparr>progress_dlg := Some (d\<lparr>pd_value := val, pd_label := message\<rparr>)\<rparr>)"

definition on_ocr_error :: "app \<Rightarrow> string \<Rightarrow> app" where
  "on_ocr_error st error_message =
     (let st1 = close_progress_dialog st
      in st1\<lparr>boxes_shown := boxes_shown st1
               @ [(Critical, ''OCR Error'',
                   error_message @ [char_of (10::nat), char_of (10::nat)]
                     @ ''Please ensure Tesseract OCR is properly installed on your system.'')]\<rparr>)"

subsection \<open>Example documents\<close>


definition four_pages :: "nat document" where
  "four_pages =
     \<lparr>fitz_open = Inr 4,
      convert_from_path = (\<lambda>page_num. if page_num = 2 then Inr [] else Inr [page_num]),
      image_to_string = (\<lambda>img. if img = 1 then Inr ''apple'' else Inr ''pie'')\<rparr>"


definition no_pages :: "nat document" where
  "no_pages =
     \<lparr>fitz_open = Inr 0,
      convert_from_path = (\<lambda>page_num. Inr []),
      image_to_string = (\<lambda>img. Inr [])\<rparr>"

section \<open>Properties of the Keyword Counter\<close>

lemma match_here_iff: "match_here k t \<longleftrightarrow> lower (take (length k) t) = lower k"
  by (induction k t rule: match_here.induct) (auto simp: lower_def)

lemma match_here_length: "match_here k t \<Longrightarrow> length k \<le> length t"
  by (induction k t rule: match_here.induct) auto

lemma occurrences_Nil: "occurrences k [] = (if match_here k [] then [0] else [])"
  by (simp add: occurrences_def match_here_iff)

lemma upt_Suc_shift: "[0..<Suc (Suc n)] = 0 # map Suc [0..<Suc n]"
  by (metis map_Suc_upt upt_conv_Cons zero_less_Suc)

lemma occurrences_Cons:
  "occurrences k (c # cs) =
     (if match_here k (c # cs) then [0] else []) @ map Suc (occurrences k cs)"
proof -
  have "filter (\<lambda>i. lower (take (length k) (drop i (c # cs))) = lower k) (map Suc xs)
        = map Suc (filter (\<lambda>i. lower (take (length k) (drop i cs)) = lower k) xs)" for xs
    by (induction xs) auto
  then show ?thesis
    unfolding occurrences_def length_Cons upt_Suc_shift
    by (simp add: match_here_iff)
qed

lemma leftmost_disjoint_Suc:
  "length (leftmost_disjoint len lo (map Suc ps)) = length (leftmost_disjoint len (lo - 1) ps)"
proof (induction ps arbitrary: lo)
  case Nil
  show ?case by simp
next
  case (Cons p ps)
  have "lo \<le> Suc p \<longleftrightarrow> lo - 1 \<le> p" by arith
  moreover have "length (leftmost_disjoint len (Suc p + len) (map Suc ps))
                 = length (leftmost_disjoint len (p + len) ps)"
    using Cons.IH [of "Suc p + len"] by simp
  ultimately show ?case using Cons.IH [of lo] by simp
qed

lemma findall_count_scan:
  "lo \<le> length T \<Longrightarrow>
   length (leftmost_disjoint (length k) lo (occurrences k T)) = findall_count k (drop lo T)"
proof (induction T arbitrary: lo)
  case Nil
  then show ?case by (simp add: occurrences_Nil)
next
  case (Cons c cs)
  show ?case
  proof (cases lo)
    case (Suc l)
    with Cons.prems have "l \<le> length cs" by simp
    from Cons.IH [OF this] show ?thesis
      using Suc by (simp add: occurrences_Cons leftmost_disjoint_Suc)
  next
    case 0
    show ?thesis
    proof (cases "match_here k (c # cs)")
      case False
      with 0 Cons.IH [of 0] show ?thesis
        by (simp add: occurrences_Cons leftmost_disjoint_Suc)
    next
      case True
      then have "length k - 1 \<le> length cs"
        using match_here_length by fastforce
      from Cons.IH [OF this] have
        "length (leftmost_disjoint (length k) (length k - 1) (occurrences k cs))
         = findall_count k (drop (length k - 1) cs)" .
      moreover have "drop (max 1 (length k)) (c # cs) = drop (length k - 1) cs"
        by (cases "length k") (simp_all add: max_def)
      ultimately show ?thesis
        using 0 True by (simp add: occurrences_Cons leftmost_disjoint_Suc)
    qed
  qed
qed

lemma findall_count_occurrence_count: "findall_count k T = occurrence_count k T"
  using findall_count_scan [of 0 T k] by (simp add: occurrence_count_def)

lemma count_keywords_map:
  "count_keywords T K =
     map (\<lambda>(k, v). (k, int (findall_count k T), v, int (findall_count k T) * v)) K"
  by (induction K) (auto simp: Let_def)

text \<open>
  C1. For every text \<open>T\<close> and every keyword map \<open>K\<close>, \<open>count_keywords\<close> returns, for
  each item \<open>(k, v)\<close> of \<open>K\<close> in order, the record \<open>(k, c, v, c * v)\<close>, where \<open>c\<close> is the
  number of case-insensitive, non-overlapping occurrences of the literal \<open>k\<close> in \<open>T\<close>
  taken from left to right, with no word boundary. For \<open>{"apple": 10, "banana": -5}\<close> and
  the text "Apple pie, banana split, apple tart" the records are \<open>("apple", 2, 10, 20)\<close>
  and \<open>("banana", 1, -5, -5)\<close>.
\<close>

theorem count_keywords_records:
  "count_keywords T K =
     map (\<lambda>(k, v). (k, int (occurrence_count k T), v, int (occurrence_count k T) * v)) K
   \<and> count_keywords ''Apple pie, banana split, apple tart'' [(''apple'', 10), (''banana'', - 5)]
     = [(''apple'', 2, 10, 20), (''banana'', 1, - 5, - 5)]"
proof
  show "count_keywords T K =
     map (\<lambda>(k, v). (k, int (occurrence_count k T), v, int (occurrence_count k T) * v)) K"
    by (simp add: count_keywords_map findall_count_occurrence_count)
  show "count_keywords ''Apple pie, banana split, apple tart'' [(''apple'', 10), (''banana'', - 5)]
     = [(''apple'', 2, 10, 20), (''banana'', 1, - 5, - 5)]"
    by code_simp
qed

section \<open>Properties of the keyword table\<close>

lemma findall_count_empty: "findall_count [] T = Suc (length T)"
  by (induction T) simp_all

lemma last_value_Nil: "last_value k [] = None"
  by (simp add: last_value_def)

lemma last_value_Cons:
  "last_value k (e # es) =
     (case last_value k es of
        Some v \<Rightarrow> Some v
      | None \<Rightarrow> if fst e = k then Some (snd e) else None)"
  by (auto simp: last_value_def split: list.splits)

lemma map_of_fold_update:
  "map_of (fold (\<lambda>(k, v). AList.update k v) es kws) k =
     (case last_value k es of Some v \<Rightarrow> Some v | None \<Rightarrow> map_of kws k)"
proof (induction es arbitrary: kws)
  case Nil
  show ?case by (simp add: last_value_Nil)
next
  case (Cons e es)
  obtain k' v' where e: "e = (k', v')" by (cases e)
  show ?case
    by (simp add: e Cons.IH last_value_Cons update_conv' split: option.splits)
qed

lemma distinct_fold_update:
  "distinct (map fst kws) \<Longrightarrow> distinct (map fst (fold (\<lambda>(k, v). AList.update k v) es kws))"
  by (induction es arbitrary: kws) (auto simp: distinct_update)

lemma get_keywords_rows_eq:
  "get_keywords_rows rows kws bs =
     (fold (\<lambda>(k, v). AList.update k v) (valid_entries rows) kws,
      bs @ map invalid_value_warning (skipped_keywords rows))"
  by (induction rows kws bs rule: get_keywords_rows.induct)
     (auto simp: valid_entries_def skipped_keywords_def row_entry_def row_skipped_def
        row_texts_def Let_def split: option.splits)

lemma row_entry_nonempty: "row_entry r = Some (k, v) \<Longrightarrow> k \<noteq> []"
  by (auto simp: row_entry_def row_texts_def split: option.splits if_splits prod.splits)

lemma valid_entries_nonempty: "(k, v) \<in> set (valid_entries rows) \<Longrightarrow> k \<noteq> []"
  by (induction rows)
     (auto simp: valid_entries_def dest: row_entry_nonempty split: option.splits)

lemma last_value_Some_mem: "last_value k es = Some v \<Longrightarrow> (k, v) \<in> set es"
proof -
  assume a: "last_value k es = Some v"
  then obtain x xs where f: "filter (\<lambda>e. fst e = k) es = x # xs" and v: "v = snd (last (x # xs))"
    by (auto simp: last_value_def split: list.splits)
  have "last (x # xs) \<in> set (filter (\<lambda>e. fst e = k) es)"
    unfolding f by (rule last_in_set) simp
  then show ?thesis using v by auto
qed

lemma grand_total_loop_sum: "grand_total_loop rs g = g + sum_list (map subtotal rs)"
  by (induction rs g rule: grand_total_loop.induct) (simp_all add: subtotal_def)

lemma sum_list_insort_key: "sum_list (map f (insort_key k x xs)) = f x + sum_list (map f xs)"
  for f :: "'a \<Rightarrow> int"
  by (induction xs) simp_all

lemma sum_list_sort_key: "sum_list (map f (sort_key k xs)) = sum_list (map f xs)"
  for f :: "'a \<Rightarrow> int"
  by (induction xs) (simp_all add: sum_list_insort_key)

text \<open>
  The empty keyword on the text "abc": \<open>findall\<close> finds one empty match at each of the
  four positions, so the count is 4 and the subtotal 28, not 0.
\<close>

theorem count_keywords_empty_keyword_counterexample:
  "count_keywords ''abc'' [([], 7)] = [([], 4, 7, 28)]
   \<and> count_keywords ''abc'' [([], 7)] \<noteq> [([], 0, 7, 0)]"
  by code_simp

lemma get_keywords_from_table_eq:
  "get_keywords_from_table rows =
     (fold (\<lambda>(k, v). AList.update k v) (valid_entries rows) [],
      map invalid_value_warning (skipped_keywords rows))"
  by (simp add: get_keywords_from_table_def get_keywords_rows_eq)

lemma get_keywords_from_table_lookup:
  "map_of (fst (get_keywords_from_table rows)) k = last_value k (valid_entries rows)"
  by (simp add: get_keywords_from_table_eq map_of_fold_update split: option.splits)

lemma get_keywords_from_table_nonempty:
  "[] \<notin> fst ` set (fst (get_keywords_from_table rows))"
proof
  assume "[] \<in> fst ` set (fst (get_keywords_from_table rows))"
  then have "map_of (fst (get_keywords_from_table rows)) [] \<noteq> None"
    by (simp add: map_of_eq_None_iff)
  then obtain v where "last_value [] (valid_entries rows) = Some v"
    by (auto simp: get_keywords_from_table_lookup)
  then have "([], v) \<in> set (valid_entries rows)"
    by (rule last_value_Some_mem)
  then show False
    using valid_entries_nonempty by blast
qed

text \<open>
  C8 (amended). For every text \<open>T\<close>, \<open>count_keywords\<close> with the empty keyword does not
  fail; it returns the count \<open>len(T) + 1\<close> (one empty match at every position of \<open>T\<close>,
  the end included) and the subtotal \<open>(len(T) + 1) * value\<close>. The empty keyword is
  kept out before the counter runs: \<open>get_keywords_from_table\<close> returns no entry whose
  keyword is empty.
\<close>

theorem count_keywords_empty_keyword:
  "count_keywords T [([], v)] = [([], int (length T) + 1, v, (int (length T) + 1) * v)]
   \<and> [] \<notin> fst ` set (fst (get_keywords_from_table rows))"
  by (simp add: findall_count_empty get_keywords_from_table_nonempty Let_def)

theorem count_keywords_empty_keyword_witness:
  "count_keywords ''abc'' [([], 7)] = [([], int (length ''abc'') + 1, 7, (int (length ''abc'') + 1) * 7)]
   \<and> [] \<notin> fst ` set (fst (get_keywords_from_table [(Some '' '', Some ''3''), (Some ''cost'', Some ''3'')]))"
  using count_keywords_empty_keyword [of "''abc''" 7 "[(Some '' '', Some ''3''), (Some ''cost'', Some ''3'')]"]
  by simp

text \<open>
  Rows whose value text does not parse and that raise no warning: the value text "abc"
  beside a blank keyword, the value text "abc" beside a keyword cell that was never
  filled, and the blank value text. \<open>int\<close> rejects "abc" and " ", yet no message box is
  shown for these rows.
\<close>

theorem get_keywords_from_table_silent_skip_counterexample:
  "py_int ''abc'' = None
   \<and> py_int '' '' = None
   \<and> get_keywords_from_table [(Some '' '', Some ''abc''), (Some ''cost'', Some ''3'')]
       = ([(''cost'', 3)], [])
   \<and> get_keywords_from_table [(None, Some ''abc''), (Some ''fee'', Some '' '')] = ([], [])"
  by code_simp

lemma map_filter_append:
  "List.map_filter f (xs @ ys) = List.map_filter f xs @ List.map_filter f ys"
  by (simp add: List.map_filter_def)

lemma get_keywords_from_table_drop_row:
  "row_texts r = None \<Longrightarrow>
     get_keywords_from_table (rs @ r # rs') = get_keywords_from_table (rs @ rs')"
  by (simp add: get_keywords_from_table_eq valid_entries_def skipped_keywords_def
        map_filter_append row_entry_def row_skipped_def)

text \<open>
  C9 (amended). Reading the keyword table never aborts. A row is considered only if it
  has both cells and both its keyword and value texts are non-empty after trimming; every
  other row is skipped silently, without a warning, and the result is the same as if the
  row were not in the table. Among the rows considered, a row whose value text does not
  parse as an integer is skipped with an "Invalid Value" warning and the other rows are
  still processed. The dictionary returned has one entry per keyword text, holding the
  value of the last row for that keyword. For the rows \<open>("value", "abc")\<close>,
  \<open>("cost", "3")\<close> the result is \<open>{"cost": 3}\<close> and one warning for \<open>value\<close>.
\<close>

theorem get_keywords_from_table_entries:
  "map_of (fst (get_keywords_from_table rows)) k = last_value k (valid_entries rows)
   \<and> distinct (map fst (fst (get_keywords_from_table rows)))
   \<and> snd (get_keywords_from_table rows) = map invalid_value_warning (skipped_keywords rows)
   \<and> (row_texts r = None \<longrightarrow>
        get_keywords_from_table (rs @ r # rs') = get_keywords_from_table (rs @ rs'))
   \<and> get_keywords_from_table [(Some ''value'', Some ''abc''), (Some ''cost'', Some ''3'')]
       = ([(''cost'', 3)], [invalid_value_warning ''value''])"
proof (intro conjI impI)
  show "map_of (fst (get_keywords_from_table rows)) k = last_value k (valid_entries rows)"
    by (rule get_keywords_from_table_lookup)
  show "distinct (map fst (fst (get_keywords_from_table rows)))"
    by (simp add: get_keywords_from_table_eq distinct_fold_update)
  show "snd (get_keywords_from_table rows) = map invalid_value_warning (skipped_keywords rows)"
    by (simp add: get_keywords_from_table_eq)
  show "get_keywords_from_table (rs @ r # rs') = get_keywords_from_table (rs @ rs')"
    if "row_texts r = None"
    using that by (rule get_keywords_from_table_drop_row)
  show "get_keywords_from_table [(Some ''value'', Some ''abc''), (Some ''cost'', Some ''3'')]
       = ([(''cost'', 3)], [invalid_value_warning ''value''])"
    by code_simp
qed

theorem get_keywords_from_table_entries_witness:
  "map_of (fst (get_keywords_from_table
       [(Some ''cost'', Some ''3''), (Some ''tax'', Some ''x''), (Some '' cost '', Some ''-4''),
        (Some ''fee'', Some '' ''), (None, Some ''1'')])) ''cost'' = Some (- 4)
   \<and> snd (get_keywords_from_table
       [(Some ''cost'', Some ''3''), (Some ''tax'', Some ''x''), (Some '' cost '', Some ''-4''),
        (Some ''fee'', Some '' ''), (None, Some ''1'')]) = [invalid_value_warning ''tax'']
   \<and> row_texts (Some ''fee'', Some '' '') = None
   \<and> get_keywords_from_table
         [(Some ''cost'', Some ''3''), (Some ''fee'', Some '' ''), (Some ''tax'', Some ''x'')]
       = get_keywords_from_table [(Some ''cost'', Some ''3''), (Some ''tax'', Some ''x'')]"
proof -
  let ?rows = "[(Some ''cost'', Some ''3''), (Some ''tax'', Some ''x''), (Some '' cost '', Some ''-4''),
        (Some ''fee'', Some '' ''), (None, Some ''1'')]"
  have v: "last_value ''cost'' (valid_entries ?rows) = Some (- 4)" by code_simp
  have s: "skipped_keywords ?rows = [''tax'']" by code_simp
  have t: "row_texts (Some ''fee'', Some '' '') = None" by code_simp
  note th = get_keywords_from_table_entries
      [of ?rows "''cost''" "(Some ''fee'', Some '' '')" "[(Some ''cost'', Some ''3'')]"
          "[(Some ''tax'', Some ''x'')]"]
  from th have 1: "map_of (fst (get_keywords_from_table ?rows)) ''cost''
      = last_value ''cost'' (valid_entries ?rows)" by blast
  from th have 2: "snd (get_keywords_from_table ?rows)
      = map invalid_value_warning (skipped_keywords ?rows)" by blast
  from th t have 3: "get_keywords_from_table
        ([(Some ''cost'', Some ''3'')] @ (Some ''fee'', Some '' '') # [(Some ''tax'', Some ''x'')])
       = get_keywords_from_table ([(Some ''cost'', Some ''3'')] @ [(Some ''tax'', Some ''x'')])"
    by blast
  show ?thesis
    using 3 by (simp only: 1 2 v s t append.simps list.map simp_thms)
qed

section \<open>Properties of the aggregation and of the result display\<close>

lemma sorted_results_Nil: "sorted_results [] = []"
  by (simp add: sorted_results_def)

lemma results_table_display_results:
  "results_table (display_results st results) =
     map result_row (sorted_results results) @ [grand_total_row (sum_list (map subtotal results))]"
  by (simp add: display_results_def Let_def grand_total_loop_sum)

lemma worksheet_rows_eq:
  "worksheet_rows results =
     [XStr ''Keyword'', XStr ''Count'', XStr ''Value'', XStr ''Subtotal'']
       # map xl_row (sorted_results results)
       @ [[XStr ''GRAND TOTAL'', XStr [], XStr [], XInt (sum_list (map subtotal results))]]"
  by (simp add: worksheet_rows_def Let_def grand_total_loop_sum sorted_results_def sum_list_sort_key)

lemma subtotal_count_keywords:
  "sum_list (map subtotal (count_keywords T K)) =
     (\<Sum>(k, v)\<leftarrow>K. int (occurrence_count k T) * v)"
  by (induction K) (auto simp: Let_def subtotal_def findall_count_occurrence_count)

text \<open>
  C2. For every list of count records the grand total computed by \<open>display_results\<close> is
  the exact sum of the subtotals, and the table shows the sorted records followed by the
  grand-total row. For the empty list the total is 0, the sequence of records is empty and
  no message box is shown. In particular the total shown for \<open>count_keywords T K\<close> is the
  sum of \<open>count * value\<close> over the keywords. \<open>export_to_excel\<close> writes the same sorted records
  and the same total whenever it writes a sheet (it refuses an empty result list with a
  warning before that).
\<close>

theorem grand_total_is_sum:
  "grand_total_loop results 0 = sum_list (map subtotal results)
   \<and> results_table (display_results st results) =
       map result_row (sorted_results results) @ [grand_total_row (sum_list (map subtotal results))]
   \<and> results_table (display_results st []) = [grand_total_row 0]
   \<and> boxes_shown (display_results st results) = boxes_shown st
   \<and> results_table (display_results st (count_keywords T K)) =
       map result_row (sorted_results (count_keywords T K))
         @ [grand_total_row (\<Sum>(k, v)\<leftarrow>K. int (occurrence_count k T) * v)]
   \<and> (current_results st = Some results \<and> results \<noteq> [] \<and> file_path \<noteq> [] \<longrightarrow>
        snd (export_to_excel st file_path None) =
          Some (file_path,
                [XStr ''Keyword'', XStr ''Count'', XStr ''Value'', XStr ''Subtotal'']
                  # map xl_row (sorted_results results)
                  @ [[XStr ''GRAND TOTAL'', XStr [], XStr [],
                      XInt (sum_list (map subtotal results))]]))"
proof (intro conjI impI)
  show "grand_total_loop results 0 = sum_list (map subtotal results)"
    by (simp add: grand_total_loop_sum)
  show "results_table (display_results st results) =
       map result_row (sorted_results results) @ [grand_total_row (sum_list (map subtotal results))]"
    by (rule results_table_display_results)
  show "results_table (display_results st []) = [grand_total_row 0]"
    by (simp add: results_table_display_results sorted_results_Nil)
  show "boxes_shown (display_results st results) = boxes_shown st"
    by (simp add: display_results_def Let_def)
  show "results_table (display_results st (count_keywords T K)) =
       map result_row (sorted_results (count_keywords T K))
         @ [grand_total_row (\<Sum>(k, v)\<leftarrow>K. int (occurrence_count k T) * v)]"
    by (simp only: results_table_display_results subtotal_count_keywords)
next
  assume "current_results st = Some results \<and> results \<noteq> [] \<and> file_path \<noteq> []"
  then show "snd (export_to_excel st file_path None) =
          Some (file_path,
                [XStr ''Keyword'', XStr ''Count'', XStr ''Value'', XStr ''Subtotal'']
                  # map xl_row (sorted_results results)
                  @ [[XStr ''GRAND TOTAL'', XStr [], XStr [],
                      XInt (sum_list (map subtotal results))]])"
    by (simp add: export_to_excel_def worksheet_rows_eq)
qed

theorem grand_total_is_sum_witness:
  "results_table (display_results
       (initial_app\<lparr>current_results := Some [(''b'', 1, - 5, - 5), (''A'', 2, 10, 20)]\<rparr>)
       (count_keywords ''Apple pie, banana split, apple tart'' [(''banana'', - 5), (''apple'', 10)]))
     = [[''apple'', ''2'', ''10'', ''20''], [''banana'', ''1'', ''-5'', ''-5''],
        [''GRAND TOTAL'', [], [], ''15'']]
   \<and> snd (export_to_excel
            (initial_app\<lparr>current_results := Some [(''b'', 1, - 5, - 5), (''A'', 2, 10, 20)]\<rparr>)
            ''out.xlsx'' None)
     = Some (''out.xlsx'',
             [[XStr ''Keyword'', XStr ''Count'', XStr ''Value'', XStr ''Subtotal''],
              [XStr ''A'', XInt 2, XInt 10, XInt 20],
              [XStr ''b'', XInt 1, XInt (- 5), XInt (- 5)],
              [XStr ''GRAND TOTAL'', XStr [], XStr [], XInt 15]])"
proof -
  let ?T = "''Apple pie, banana split, apple tart''"
  let ?K = "[(''banana'', - 5), (''apple'', 10 :: int)]"
  let ?rs = "[(''b'', 1, - 5, - 5), (''A'', 2, 10, 20)] :: count_record list"
  let ?st = "initial_app\<lparr>current_results := Some ?rs\<rparr>"
  have a: "map result_row (sorted_results (count_keywords ?T ?K))
           = [[''apple'', ''2'', ''10'', ''20''], [''banana'', ''1'', ''-5'', ''-5'']]"
    by code_simp
  have b: "grand_total_row (\<Sum>(k, v)\<leftarrow>?K. int (occurrence_count k ?T) * v)
           = [''GRAND TOTAL'', [], [], ''15'']"
    by code_simp
  have c: "map xl_row (sorted_results ?rs)
           = [[XStr ''A'', XInt 2, XInt 10, XInt 20], [XStr ''b'', XInt 1, XInt (- 5), XInt (- 5)]]"
    by code_simp
  have d: "sum_list (map subtotal ?rs) = 15"
    by (simp add: subtotal_def)
  have e: "current_results ?st = Some ?rs \<and> ?rs \<noteq> [] \<and> ''out.xlsx'' \<noteq> []"
    by simp
  note t = grand_total_is_sum [of ?rs ?st ?T ?K "''out.xlsx''"]
  from t have 1: "results_table (display_results ?st (count_keywords ?T ?K)) =
       map result_row (sorted_results (count_keywords ?T ?K))
         @ [grand_total_row (\<Sum>(k, v)\<leftarrow>?K. int (occurrence_count k ?T) * v)]"
    by blast
  from t e have 2: "snd (export_to_excel ?st ''out.xlsx'' None) =
          Some (''out.xlsx'',
                [XStr ''Keyword'', XStr ''Count'', XStr ''Value'', XStr ''Subtotal'']
                  # map xl_row (sorted_results ?rs)
                  @ [[XStr ''GRAND TOTAL'', XStr [], XStr [],
                      XInt (sum_list (map subtotal ?rs))]])"
    by blast
  show ?thesis
    by (simp only: 1 2 a b c d append.simps simp_thms)
qed

text \<open>
  C6. The records shown in the result table and written to the spreadsheet are the input
  records sorted by lower-cased keyword (compared by code point, independent of any
  locale), and the sort is stable: the records whose keywords are equal when case is
  ignored keep their input order.
\<close>

theorem results_sorted_by_keyword_stable:
  "sorted (map (\<lambda>r. lower (fst r)) (sorted_results results))
   \<and> filter (\<lambda>r. lower (fst r) = key) (sorted_results results)
       = filter (\<lambda>r. lower (fst r) = key) results
   \<and> length (sorted_results results) = length results
   \<and> take (length results) (results_table (display_results st results))
       = map result_row (sorted_results results)
   \<and> take (length results) (tl (worksheet_rows results))
       = map xl_row (sorted_results results)"
proof (intro conjI)
  show "sorted (map (\<lambda>r. lower (fst r)) (sorted_results results))"
    by (simp add: sorted_results_def)
  show "filter (\<lambda>r. lower (fst r) = key) (sorted_results results)
       = filter (\<lambda>r. lower (fst r) = key) results"
    unfolding sorted_results_def by (rule sort_key_stable)
  show len: "length (sorted_results results) = length results"
    by (simp add: sorted_results_def)
  show "take (length results) (results_table (display_results st results))
       = map result_row (sorted_results results)"
    by (simp add: results_table_display_results len)
  show "take (length results) (tl (worksheet_rows results))
       = map xl_row (sorted_results results)"
    by (simp add: worksheet_rows_eq len)
qed

theorem results_sorted_by_keyword_stable_witness:
  "sorted_results [(''b'', 1, 1, 1), (''A'', 2, 1, 2), (''a'', 3, 1, 3), (''B'', 4, 1, 4)]
     = [(''A'', 2, 1, 2), (''a'', 3, 1, 3), (''b'', 1, 1, 1), (''B'', 4, 1, 4)]
   \<and> filter (\<lambda>r. lower (fst r) = ''a'')
       (sorted_results [(''b'', 1, 1, 1), (''A'', 2, 1, 2), (''a'', 3, 1, 3), (''B'', 4, 1, 4)])
     = [(''A'', 2, 1, 2), (''a'', 3, 1, 3)]"
proof -
  let ?rs = "[(''b'', 1, 1, 1), (''A'', 2, 1, 2), (''a'', 3, 1, 3), (''B'', 4, 1, 4)] :: count_record list"
  have a: "sorted_results ?rs = [(''A'', 2, 1, 2), (''a'', 3, 1, 3), (''b'', 1, 1, 1), (''B'', 4, 1, 4)]"
    by code_simp
  have b: "filter (\<lambda>r. lower (fst r) = ''a'') ?rs = [(''A'', 2, 1, 2), (''a'', 3, 1, 3)]"
    by code_simp
  show ?thesis
    using results_sorted_by_keyword_stable [of ?rs "''a''" initial_app] a b by simp
qed

lemma close_progress_dialog_fields:
  "boxes_shown (close_progress_dialog st) = boxes_shown st"
  "current_results (close_progress_dialog st) = current_results st"
  "results_table (close_progress_dialog st) = results_table st"
  "export_enabled (close_progress_dialog st) = export_enabled st"
  "extracted_text (close_progress_dialog st) = extracted_text st"
  by (simp_all add: close_progress_dialog_def split: option.splits)

text \<open>
  C10. When recognition finishes with a text that is empty or all white space,
  \<open>on_ocr_finished\<close> closes the progress dialog and shows the "No Text Found" warning, and
  nothing else changes: no counting, no result table, no stored results, the export button
  as it was. Only for a non-blank text are \<open>count_keywords\<close> and \<open>display_results\<close> run,
  which stores the results and enables the export.
\<close>

theorem on_ocr_finished_blank_text:
  "(strip text = [] \<longrightarrow>
      on_ocr_finished st text kws
        = (close_progress_dialog st)\<lparr>boxes_shown := boxes_shown st @ [no_text_found]\<rparr>
      \<and> current_results (on_ocr_finished st text kws) = current_results st
      \<and> results_table (on_ocr_finished st text kws) = results_table st
      \<and> export_enabled (on_ocr_finished st text kws) = export_enabled st
      \<and> extracted_text (on_ocr_finished st text kws) = extracted_text st)
   \<and> (strip text \<noteq> [] \<longrightarrow>
      on_ocr_finished st text kws
        = display_results (display_extracted_text (close_progress_dialog st) text)
            (count_keywords text kws)
      \<and> current_results (on_ocr_finished st text kws) = Some (count_keywords text kws)
      \<and> export_enabled (on_ocr_finished st text kws)
      \<and> boxes_shown (on_ocr_finished st text kws) = boxes_shown st)"
  by (simp add: on_ocr_finished_def Let_def close_progress_dialog_fields display_results_def
      display_extracted_text_def)

theorem on_ocr_finished_blank_text_witness:
  "on_ocr_finished initial_app [CHR '' '', char_of (10::nat)] [(''apple'', 10)]
     = initial_app\<lparr>boxes_shown := [no_text_found]\<rparr>
   \<and> current_results (on_ocr_finished initial_app ''An apple'' [(''apple'', 10)])
     = Some [(''apple'', 1, 10, 10)]
   \<and> export_enabled (on_ocr_finished initial_app ''An apple'' [(''apple'', 10)])"
proof -
  have a: "strip [CHR '' '', char_of (10::nat)] = []" by code_simp
  have b: "strip ''An apple'' \<noteq> []" by code_simp
  have c: "count_keywords ''An apple'' [(''apple'', 10)] = [(''apple'', 1, 10, 10)]" by code_simp
  have d: "close_progress_dialog initial_app = initial_app"
    by (simp add: close_progress_dialog_def initial_app_def)
  have e: "boxes_shown initial_app = []" by (simp add: initial_app_def)
  let ?kws = "[(''apple'', 10 :: int)]"
  from on_ocr_finished_blank_text [of "[CHR '' '', char_of (10::nat)]" initial_app ?kws] a
  have 1: "on_ocr_finished initial_app [CHR '' '', char_of (10::nat)] ?kws
        = (close_progress_dialog initial_app)\<lparr>boxes_shown := boxes_shown initial_app @ [no_text_found]\<rparr>"
    by blast
  from on_ocr_finished_blank_text [of "''An apple''" initial_app ?kws] b
  have 2: "current_results (on_ocr_finished initial_app ''An apple'' ?kws)
             = Some (count_keywords ''An apple'' ?kws)
           \<and> export_enabled (on_ocr_finished initial_app ''An apple'' ?kws)"
    by blast
  show ?thesis
    by (simp only: 1 2 c d e append_Nil simp_thms)
qed

section \<open>Properties of double-precision arithmetic\<close>

text \<open>
  Rounding to the nearest integer is within one half and monotone; \<open>ilog2\<close> is the binary
  exponent; rounding to a double has a relative error of at most \<open>2\<^sup>-\<^sup>5\<^sup>3\<close>, is monotone and
  keeps the sign. From these follow the bounds on \<open>int((q / N) * c)\<close>.
\<close>

lemma round_half_even_error: "\<bar>of_int (round_half_even x) - x\<bar> \<le> 1 / 2"
proof -
  have "of_int \<lfloor>x\<rfloor> \<le> x" "x < of_int \<lfloor>x\<rfloor> + 1" by linarith+
  then show ?thesis
    by (auto simp: round_half_even_def Let_def abs_le_iff)
qed

lemma round_half_even_of_int: "round_half_even (of_int n) = n"
  by (simp add: round_half_even_def)

lemma round_half_even_between:
  "of_int \<lfloor>x\<rfloor> \<le> (of_int (round_half_even x) :: rat)"
  "round_half_even x \<le> \<lfloor>x\<rfloor> + 1"
  by (auto simp: round_half_even_def Let_def)

lemma round_half_even_mono:
  assumes "x \<le> y"
  shows "round_half_even x \<le> round_half_even y"
proof (cases "\<lfloor>x\<rfloor> = \<lfloor>y\<rfloor>")
  case True
  with assms have "x - of_int \<lfloor>x\<rfloor> \<le> y - of_int \<lfloor>y\<rfloor>" by simp
  then show ?thesis
    using True by (auto simp: round_half_even_def Let_def)
next
  case False
  with assms have "\<lfloor>x\<rfloor> + 1 \<le> \<lfloor>y\<rfloor>"
    using floor_mono [of x y] by linarith
  moreover have "round_half_even x \<le> \<lfloor>x\<rfloor> + 1"
    by (rule round_half_even_between)
  moreover have "\<lfloor>y\<rfloor> \<le> round_half_even y"
    using round_half_even_between(1) [of y] by simp
  ultimately show ?thesis by linarith
qed

lemma bitlen_powi:
  assumes "0 < (a::int)"
  shows "2 powi (bitlen a - 1) \<le> (of_int a :: rat)" and "(of_int a :: rat) < 2 powi (bitlen a)"
proof -
  from assms have b1: "1 \<le> bitlen a"
    by (simp add: bitlen_alt_def)
  from bitlen_bounds [OF assms]
  have 1: "2 ^ nat (bitlen a - 1) \<le> a" and 2: "a < 2 ^ nat (bitlen a)" by auto
  have "(of_int (2 ^ nat (bitlen a - 1)) :: rat) \<le> of_int a"
    using 1 by (simp only: of_int_le_iff)
  then show "2 powi (bitlen a - 1) \<le> (of_int a :: rat)"
    using b1 by (simp add: power_int_def)
  have "(of_int a :: rat) < of_int (2 ^ nat (bitlen a))"
    using 2 by (simp only: of_int_less_iff)
  then show "(of_int a :: rat) < 2 powi (bitlen a)"
    using b1 by (simp add: power_int_def)
qed

lemma powi_diff: "(2::rat) powi (m - n) = 2 powi m / 2 powi n"
  by (simp add: power_int_diff)

lemma ilog2_bounds:
  assumes "0 < q"
  shows "2 powi (ilog2 q) \<le> q" and "q < 2 powi (ilog2 q + 1)"
proof -
  obtain a b where ab: "quotient_of q = (a, b)" by (cases "quotient_of q")
  then have b: "0 < b" using quotient_of_denom_pos by blast
  have q: "q = of_int a / of_int b" using quotient_of_div [OF ab] .
  have a: "0 < a" using assms b q by (simp add: zero_less_divide_iff)
  define d where "d = bitlen a - bitlen b"
  note A = bitlen_powi [OF a] and B = bitlen_powi [OF b]
  have pa: "(0::rat) < of_int a" and pb: "(0::rat) < of_int b" using a b by simp_all
  have lower: "2 powi (d - 1) < q"
  proof -
    have "d - 1 = (bitlen a - 1) - bitlen b"
      by (simp add: d_def)
    then have "2 powi (d - 1) = 2 powi (bitlen a - 1) / (2 powi (bitlen b) :: rat)"
      by (simp only: powi_diff)
    also have "\<dots> \<le> of_int a / 2 powi (bitlen b)"
      using A(1) by (simp add: divide_right_mono)
    also have "\<dots> < of_int a / of_int b"
      using B(2) pa pb by (simp add: divide_strict_left_mono)
    finally show ?thesis by (simp add: q)
  qed
  have upper: "q < 2 powi (d + 1)"
  proof -
    have "q < 2 powi (bitlen a) / of_int b"
      unfolding q using A(2) pb by (simp add: divide_strict_right_mono)
    also have "\<dots> \<le> 2 powi (bitlen a) / 2 powi (bitlen b - 1)"
      using B(1) by (intro frac_le) simp_all
    also have "\<dots> = 2 powi (d + 1)"
    proof -
      have "d + 1 = bitlen a - (bitlen b - 1)"
        by (simp add: d_def)
      then show ?thesis
        by (simp only: powi_diff)
    qed
    finally show ?thesis .
  qed
  have il: "ilog2 q = (if 2 powi d \<le> q then d else d - 1)"
    by (simp add: ilog2_def ab d_def Let_def)
  show "2 powi (ilog2 q) \<le> q"
    using lower by (simp add: il)
  show "q < 2 powi (ilog2 q + 1)"
    using upper by (simp add: il)
qed

lemma powi_52: "(2::rat) powi (e + 52) = 2 powi e * 2 ^ 52"
  by (simp add: power_int_add)

lemma powi_53: "(2::rat) powi (e + 53) = 2 powi e * 2 ^ 53"
  by (simp add: power_int_add)

lemma float_round_pos:
  assumes "0 < q"
  shows "float_round q
         = of_int (round_half_even (q / 2 powi (ilog2 q - 52))) * 2 powi (ilog2 q - 52)"
  using assms by (simp add: float_round_def Let_def)

lemma ulp_bounds:
  assumes "0 < q"
  shows "2 powi (ilog2 q - 52) * 2 ^ 52 \<le> q" and "q < 2 powi (ilog2 q - 52) * 2 ^ 53"
proof -
  have "2 powi (ilog2 q) = (2::rat) powi (ilog2 q - 52) * 2 ^ 52"
    using powi_52 [of "ilog2 q - 52"] by simp
  then show "2 powi (ilog2 q - 52) * 2 ^ 52 \<le> q"
    using ilog2_bounds(1) [OF assms] by simp
  have "2 powi (ilog2 q + 1) = (2::rat) powi (ilog2 q - 52) * 2 ^ 53"
    using powi_53 [of "ilog2 q - 52"] by (simp add: add.commute)
  then show "q < 2 powi (ilog2 q - 52) * 2 ^ 53"
    using ilog2_bounds(2) [OF assms] by simp
qed

lemma float_round_error:
  assumes "0 < q"
  shows "\<bar>float_round q - q\<bar> \<le> q / 2 ^ 53"
proof -
  define P :: rat where "P = 2 powi (ilog2 q - 52)"
  have P: "0 < P" by (simp add: P_def)
  have Pq: "P * 2 ^ 52 \<le> q"
    using ulp_bounds(1) [OF assms] by (simp add: P_def)
  define m :: rat where "m = of_int (round_half_even (q / P))"
  have fr: "float_round q = m * P"
    by (simp add: float_round_pos [OF assms] m_def P_def)
  have "\<bar>m - q / P\<bar> \<le> 1 / 2"
    unfolding m_def by (rule round_half_even_error)
  then have "\<bar>m - q / P\<bar> * P \<le> 1 / 2 * P"
    using P by (intro mult_right_mono) simp_all
  moreover have "\<bar>m - q / P\<bar> * P = \<bar>m * P - q\<bar>"
  proof -
    have "\<bar>m - q / P\<bar> * P = \<bar>(m - q / P) * P\<bar>"
      using P by (simp add: abs_mult)
    also have "(m - q / P) * P = m * P - q"
      using P by (simp add: field_simps)
    finally show ?thesis .
  qed
  ultimately have "\<bar>m * P - q\<bar> \<le> P / 2" by simp
  moreover have "P / 2 \<le> q / 2 ^ 53"
    using Pq by (simp add: field_simps)
  ultimately show ?thesis
    unfolding fr by linarith
qed

lemma ilog2_mono:
  assumes "0 < x" "x \<le> y"
  shows "ilog2 x \<le> ilog2 y"
proof (rule ccontr)
  assume "\<not> ilog2 x \<le> ilog2 y"
  then have "ilog2 y + 1 \<le> ilog2 x" by simp
  then have "(2::rat) powi (ilog2 y + 1) \<le> 2 powi (ilog2 x)"
    by (intro power_int_increasing) simp_all
  moreover have "0 < y" using assms by simp
  ultimately show False
    using ilog2_bounds(1) [OF assms(1)] ilog2_bounds(2) [of y] assms(2) by linarith
qed

lemma float_round_range:
  assumes "0 < q"
  shows "2 powi (ilog2 q) \<le> float_round q" and "float_round q \<le> 2 powi (ilog2 q + 1)"
proof -
  define P :: rat where "P = 2 powi (ilog2 q - 52)"
  have P: "0 < P" by (simp add: P_def)
  have lo: "of_int (2 ^ 52) \<le> q / P"
    using ulp_bounds(1) [OF assms] P by (simp add: P_def field_simps)
  have hi: "q / P \<le> of_int (2 ^ 53)"
    using ulp_bounds(2) [OF assms] P by (simp add: P_def field_simps)
  have fr: "float_round q = of_int (round_half_even (q / P)) * P"
    by (simp add: float_round_pos [OF assms] P_def)
  have "2 ^ 52 \<le> round_half_even (q / P)"
    using round_half_even_mono [OF lo] by (simp only: round_half_even_of_int)
  then have "(of_int (2 ^ 52) :: rat) \<le> of_int (round_half_even (q / P))"
    by (simp only: of_int_le_iff)
  then have "2 ^ 52 * P \<le> float_round q"
    unfolding fr using P by (simp add: mult_right_mono)
  moreover have "2 powi (ilog2 q) = 2 ^ 52 * P"
    using powi_52 [of "ilog2 q - 52"] by (simp add: P_def)
  ultimately show "2 powi (ilog2 q) \<le> float_round q" by simp
  have "round_half_even (q / P) \<le> 2 ^ 53"
    using round_half_even_mono [OF hi] by (simp only: round_half_even_of_int)
  then have "(of_int (round_half_even (q / P)) :: rat) \<le> of_int (2 ^ 53)"
    by (simp only: of_int_le_iff)
  then have "float_round q \<le> 2 ^ 53 * P"
    unfolding fr using P by (simp add: mult_right_mono)
  moreover have "2 powi (ilog2 q + 1) = 2 ^ 53 * P"
    using powi_53 [of "ilog2 q - 52"] by (simp add: P_def add.commute)
  ultimately show "float_round q \<le> 2 powi (ilog2 q + 1)" by simp
qed

lemma float_round_nonneg: "0 \<le> q \<Longrightarrow> 0 \<le> float_round q"
proof (cases "q = 0")
  case True
  then show ?thesis by (simp add: float_round_def)
next
  case False
  assume "0 \<le> q"
  with False have "0 < q" by simp
  from float_round_range(1) [OF this] show ?thesis
    by (meson less_eq_rat_def order_trans zero_less_numeral zero_less_power_int)
qed

lemma float_round_mono:
  assumes "0 \<le> x" "x \<le> y"
  shows "float_round x \<le> float_round y"
proof (cases "x = 0")
  case True
  then show ?thesis
    using float_round_nonneg [of y] assms by (simp add: float_round_def)
next
  case False
  with assms have x: "0 < x" and y: "0 < y" by simp_all
  show ?thesis
  proof (cases "ilog2 x = ilog2 y")
    case True
    define P :: rat where "P = 2 powi (ilog2 y - 52)"
    have P: "0 < P" by (simp add: P_def)
    have "x / P \<le> y / P"
      using assms(2) P by (simp add: divide_right_mono)
    then have "round_half_even (x / P) \<le> round_half_even (y / P)"
      by (rule round_half_even_mono)
    then have "(of_int (round_half_even (x / P)) :: rat) * P \<le> of_int (round_half_even (y / P)) * P"
      using P by (simp add: mult_right_mono)
    then show ?thesis
      by (simp add: float_round_pos [OF x] float_round_pos [OF y] True P_def)
  next
    case False
    with ilog2_mono [OF x assms(2)] have "ilog2 x + 1 \<le> ilog2 y" by simp
    then have "(2::rat) powi (ilog2 x + 1) \<le> 2 powi (ilog2 y)"
      by (intro power_int_increasing) simp_all
    then show ?thesis
      using float_round_range(2) [OF x] float_round_range(1) [OF y] by linarith
  qed
qed

lemma float_round_1: "float_round 1 = 1"
  by code_simp

lemma float_round_90: "float_round 90 = 90"
  by code_simp

lemma tenth_times_nine: "float_round (float_round (1 / 10) * 9) < 1"
  by code_simp

lemma nine_exact:
  "\<lfloor>float_round (float_round (1 / 1) * 9)\<rfloor> = 9"
  "\<lfloor>float_round (float_round (1 / 3) * 9)\<rfloor> = 3"
  "\<lfloor>float_round (float_round (1 / 9) * 9)\<rfloor> = 1"
  by code_simp+


lemma scaled_error:
  assumes x: "0 < x" "x \<le> 1" and c: "0 < c" "c \<le> 90"
  shows "\<bar>float_round (float_round x * c) - c * x\<bar> < 1 / 2 ^ 44"
proof -
  define a where "a = float_round x"
  define b where "b = float_round (a * c)"
  have ea: "\<bar>a - x\<bar> \<le> x / 2 ^ 53"
    unfolding a_def by (rule float_round_error [OF x(1)])
  have "x / 2 ^ 53 \<le> 1 / 2 ^ 53"
    using x(2) by (simp add: divide_right_mono)
  with ea have ea': "\<bar>a - x\<bar> \<le> 1 / 2 ^ 53" by linarith
  have "x / 2 ^ 53 < x" using x(1) by (simp add: field_simps)
  with ea have a0: "0 < a" by linarith
  have small: "(1::rat) / 2 ^ 53 \<le> 1" by simp
  from ea' x(2) small have a2: "a \<le> 2" by linarith
  have y0: "0 < a * c" using a0 c(1) by simp
  have "a * c \<le> 2 * 90"
    using a2 c a0 by (intro mult_mono) simp_all
  then have y1: "a * c / 2 ^ 53 \<le> 180 / 2 ^ 53"
    by (simp add: divide_right_mono)
  have eb: "\<bar>b - a * c\<bar> \<le> a * c / 2 ^ 53"
    unfolding b_def by (rule float_round_error [OF y0])
  have "\<bar>a * c - c * x\<bar> = c * \<bar>a - x\<bar>"
  proof -
    have "a * c - c * x = c * (a - x)" by (simp add: algebra_simps)
    then show ?thesis using c(1) by (simp add: abs_mult)
  qed
  also have "\<dots> \<le> 90 * (1 / 2 ^ 53)"
    using c ea' by (intro mult_mono) simp_all
  finally have ec: "\<bar>a * c - c * x\<bar> \<le> 90 / 2 ^ 53" by simp
  have "\<bar>b - c * x\<bar> \<le> \<bar>b - a * c\<bar> + \<bar>a * c - c * x\<bar>" by linarith
  also have "\<dots> \<le> 180 / 2 ^ 53 + 90 / 2 ^ 53"
    using eb y1 ec by linarith
  also have "\<dots> < 1 / 2 ^ 44" by simp
  finally show ?thesis by (simp add: a_def b_def)
qed

lemma py_int_of_float_nonneg: "0 \<le> x \<Longrightarrow> py_int_of_float x = \<lfloor>x\<rfloor>"
  by (simp add: py_int_of_float_def)

lemma scaled_value_nonneg:
  "0 \<le> float_mul (float_div (int q) (int N)) (of_nat c)"
proof -
  have "0 \<le> float_div (int q) (int N)"
    unfolding float_div_def by (rule float_round_nonneg) simp
  then show ?thesis
    unfolding float_mul_def by (intro float_round_nonneg mult_nonneg_nonneg) simp_all
qed

lemma scaled_floor:
  fixes q N c :: nat
  assumes N: "0 < N" "N \<le> 2 ^ 44" and q: "q \<le> N" and c: "0 < c" "c \<le> 90"
  defines "v \<equiv> py_int_of_float (float_mul (float_div (int q) (int N)) (of_nat c))"
  shows "v \<le> int (c * q div N)"
    and "int (c * q div N) - 1 \<le> v"
    and "\<not> N dvd c * q \<Longrightarrow> v = int (c * q div N)"
proof -
  define b where "b = float_mul (float_div (int q) (int N)) (of_nat c)"
  have v: "v = \<lfloor>b\<rfloor>"
    unfolding v_def b_def by (rule py_int_of_float_nonneg) (rule scaled_value_nonneg)
  define k r where "k = c * q div N" and "r = c * q mod N"
  have goal: "\<lfloor>b\<rfloor> \<le> int k \<and> int k - 1 \<le> \<lfloor>b\<rfloor> \<and> (r \<noteq> 0 \<longrightarrow> \<lfloor>b\<rfloor> = int k)"
  proof (cases "q = 0")
    case True
    then have "b = 0"
      by (simp add: b_def float_div_def float_mul_def float_round_def)
    then show ?thesis
      using True by (simp add: k_def r_def)
  next
    case False
    define x :: rat where "x = of_nat q / of_nat N"
    have x: "0 < x" "x \<le> 1"
      using False N(1) q by (simp_all add: x_def)
    have cr: "(0::rat) < of_nat c" "(of_nat c :: rat) \<le> 90"
      using c by simp_all
    have bx: "b = float_round (float_round x * of_nat c)"
      by (simp add: b_def float_div_def float_mul_def x_def)
    have err: "\<bar>b - of_nat c * x\<bar> < 1 / 2 ^ 44"
      unfolding bx by (rule scaled_error [OF x cr])
    have Nr: "(0::rat) < of_nat N" using N(1) by simp
    have "(of_nat N :: rat) \<le> of_nat (2 ^ 44)"
      using N(2) by (simp only: of_nat_le_iff)
    then have "(of_nat N :: rat) \<le> 2 ^ 44" by simp
    then have eps: "(1::rat) / 2 ^ 44 \<le> 1 / of_nat N"
      using Nr by (intro divide_left_mono) simp_all
    have "c * q = k * N + r"
      by (simp add: k_def r_def)
    then have "(of_nat (c * q) :: rat) = of_nat (k * N + r)"
      by simp
    then have "of_nat c * (of_nat q :: rat) = of_nat k * of_nat N + of_nat r"
      by simp
    then have cx: "of_nat c * x = of_nat k + of_nat r / (of_nat N :: rat)"
      using Nr by (simp add: x_def field_simps)
    have "r < N" using N(1) by (simp add: r_def)
    then have "r + 1 \<le> N" by simp
    then have "(of_nat (r + 1) :: rat) \<le> of_nat N"
      by (simp only: of_nat_le_iff)
    then have "(of_nat r :: rat) + 1 \<le> of_nat N" by simp
    then have rhi: "of_nat r / (of_nat N :: rat) + 1 / of_nat N \<le> 1"
      using Nr by (simp add: field_simps)
    have rlo: "0 \<le> of_nat r / (of_nat N :: rat)" by simp
    define eps t u :: rat where "eps = 1 / 2 ^ 44" and "t = of_nat r / of_nat N"
      and "u = 1 / of_nat N"
    have small: "eps \<le> 1" by (simp add: eps_def)
    have e1: "b - (of_nat k + t) < eps" and e2: "- (b - (of_nat k + t)) < eps"
      using err unfolding cx eps_def t_def by (simp_all only: abs_less_iff)
    have f1: "t + u \<le> 1" using rhi by (simp only: t_def u_def)
    have f2: "0 \<le> t" using rlo by (simp only: t_def)
    have f3: "eps \<le> u" using eps by (simp only: eps_def u_def)
    have up: "b < of_int (int k) + 1"
      using e1 f1 f3 by simp
    have lo: "of_int (int k - 1) \<le> b"
      using e2 f2 small by simp
    have lo': "of_int (int k) \<le> b" if "r \<noteq> 0"
    proof -
      from that have "(1::rat) \<le> of_nat r" by simp
      then have "1 / of_nat N \<le> of_nat r / (of_nat N :: rat)"
        using Nr by (simp add: divide_right_mono)
      then have "u \<le> t" by (simp only: t_def u_def)
      then show ?thesis
        using e2 f3 by simp
    qed
    have 1: "\<lfloor>b\<rfloor> \<le> int k"
      using up by (simp add: floor_le_iff)
    have 2: "int k - 1 \<le> \<lfloor>b\<rfloor>"
      using lo by (simp only: le_floor_iff)
    have 3: "\<lfloor>b\<rfloor> = int k" if "r \<noteq> 0"
      using lo' [OF that] 1 by (simp add: le_floor_iff order_antisym)
    show ?thesis using 1 2 3 by blast
  qed
  show "v \<le> int (c * q div N)" using goal by (simp add: v k_def)
  show "int (c * q div N) - 1 \<le> v" using goal by (simp add: v k_def)
  show "v = int (c * q div N)" if "\<not> N dvd c * q"
  proof -
    from that have "r \<noteq> 0" by (simp add: r_def dvd_eq_mod_eq_0)
    with goal show ?thesis by (simp add: v k_def)
  qed
qed

section \<open>Properties of the progress percentages\<close>

lemma progress_percent_prev:
  "1 \<le> p \<Longrightarrow> progress_percent N p = ocr_progress N (p - 1)"
  by (simp add: progress_percent_def ocr_progress_def)

lemma ocr_progress_bounds:
  fixes q N :: nat
  assumes "0 < N" "N \<le> 2 ^ 44" "q \<le> N"
  shows "ocr_progress N q \<le> 5 + int (90 * q div N)"
    and "5 + int (90 * q div N) - 1 \<le> ocr_progress N q"
    and "\<not> N dvd 90 * q \<Longrightarrow> ocr_progress N q = 5 + int (90 * q div N)"
  using scaled_floor [OF assms, of 90] by (simp_all add: ocr_progress_def)

lemma render_share_small:
  fixes N :: nat
  assumes "10 \<le> N"
  shows "py_int_of_float (float_mul (float_div 1 (int N)) 9) = 0"
proof -
  have "(1::rat) / of_nat N \<le> 1 / 10"
    using assms by (intro divide_left_mono) simp_all
  then have "float_round (1 / of_nat N) \<le> float_round (1 / 10)"
    by (intro float_round_mono) simp_all
  then have "float_round (1 / of_nat N) * 9 \<le> float_round (1 / 10) * 9"
    by simp
  moreover have "0 \<le> float_round (1 / of_nat N) * 9"
    by (intro mult_nonneg_nonneg float_round_nonneg) simp_all
  ultimately have "float_round (float_round (1 / of_nat N) * 9)
                   \<le> float_round (float_round (1 / 10) * 9)"
    by (intro float_round_mono)
  with tenth_times_nine have "float_mul (float_div 1 (int N)) 9 < 1"
    by (simp add: float_mul_def float_div_def)
  moreover have "0 \<le> float_mul (float_div 1 (int N)) 9"
    using scaled_value_nonneg [of 1 N 9] by simp
  ultimately show ?thesis
    by (simp add: py_int_of_float_def floor_eq_iff)
qed

lemma render_share:
  fixes N :: nat
  assumes "0 < N"
  shows "py_int_of_float (float_mul (float_div 1 (int N)) 9) = int (9 div N)"
proof (cases "10 \<le> N")
  case True
  then show ?thesis by (simp add: render_share_small)
next
  case False
  with assms have N: "N \<in> {1, 2, 3, 4, 5, 6, 7, 8, 9}" by auto
  have small: "N \<le> 2 ^ 44" using False by simp
  have one: "1 \<le> N" using assms by simp
  have nonneg: "0 \<le> float_mul (float_div 1 (int N)) 9"
    using scaled_value_nonneg [of 1 N 9] by simp
  show ?thesis
  proof (cases "N dvd 9")
    case True
    with N have "N = 1 \<or> N = 3 \<or> N = 9" by auto
    then show ?thesis
      using nine_exact
      by (auto simp: py_int_of_float_def float_mul_def float_div_def float_round_nonneg)
  next
    case False
    then show ?thesis
      using scaled_floor(3) [OF assms small one, of 9] by simp
  qed
qed

lemma conversion_progress_eq:
  "0 < N \<Longrightarrow> conversion_progress N p = progress_percent N p + int (9 div N)"
  by (simp add: conversion_progress_def render_share)

lemma ocr_progress_0: "ocr_progress N 0 = 5"
  by (simp add: ocr_progress_def float_div_def float_mul_def float_round_def py_int_of_float_def)

lemma ocr_progress_last: "0 < N \<Longrightarrow> ocr_progress N N = 95"
  by (simp add: ocr_progress_def float_div_def float_mul_def float_round_1 float_round_90
      py_int_of_float_def)

lemma ocr_progress_mono:
  assumes "q \<le> q'"
  shows "ocr_progress N q \<le> ocr_progress N q'"
proof -
  have "(of_nat q :: rat) / of_nat N \<le> of_nat q' / of_nat N"
    using assms by (simp add: divide_right_mono)
  then have "float_round (of_nat q / of_nat N) \<le> float_round (of_nat q' / of_nat N)"
    by (intro float_round_mono) simp_all
  then have "float_round (of_nat q / of_nat N) * 90 \<le> float_round (of_nat q' / of_nat N) * 90"
    by simp
  moreover have "0 \<le> float_round (of_nat q / of_nat N) * 90"
    by (intro mult_nonneg_nonneg float_round_nonneg) simp_all
  ultimately have "float_mul (float_div (int q) (int N)) 90
                   \<le> float_mul (float_div (int q') (int N)) 90"
    unfolding float_mul_def float_div_def of_int_of_nat_eq by (intro float_round_mono)
  then have "\<lfloor>float_mul (float_div (int q) (int N)) 90\<rfloor>
             \<le> \<lfloor>float_mul (float_div (int q') (int N)) 90\<rfloor>"
    by (rule floor_mono)
  then show ?thesis
    using scaled_value_nonneg [of q N 90] scaled_value_nonneg [of q' N 90]
    by (simp add: ocr_progress_def py_int_of_float_def)
qed

lemma div_share:
  fixes N p :: nat
  assumes "0 < N" "1 \<le> p"
  shows "90 * (p - 1) div N + 9 div N + (if N dvd 90 * p then 1 else 0) \<le> 90 * p div N"
proof -
  define a where "a = 90 * (p - 1)"
  have p: "90 * p = a + 90" using assms(2) by (simp add: a_def algebra_simps)
  have "(a div N + 9 div N) * N \<le> a + 9"
    by (simp add: add_mult_distrib add_mono)
  then have 1: "a div N + 9 div N \<le> (a + 9) div N"
    using assms(1) by (simp add: less_eq_div_iff_mult_less_eq)
  show ?thesis
  proof (cases "N dvd 90 * p")
    case True
    then obtain k where k: "90 * p = N * k" by (auto simp: dvd_def)
    then have "a + 9 < k * N" using p by (simp add: mult.commute)
    then have "(a + 9) div N < k"
      using assms(1) by (simp add: div_less_iff_less_mult)
    moreover have "90 * p div N = k" using k assms(1) by simp
    ultimately show ?thesis using 1 True by (simp add: a_def)
  next
    case False
    have "(a + 9) div N \<le> (a + 90) div N" by (intro div_le_mono) simp
    then show ?thesis using 1 False p by (simp add: a_def)
  qed
qed

lemma conversion_le_ocr:
  fixes N p :: nat
  assumes "0 < N" "1 \<le> p" "p \<le> N"
  shows "conversion_progress N p \<le> ocr_progress N p"
proof (cases "10 \<le> N")
  case True
  then have "conversion_progress N p = ocr_progress N (p - 1)"
    using assms by (simp add: conversion_progress_eq progress_percent_prev)
  then show ?thesis using ocr_progress_mono [of "p - 1" p N] by simp
next
  case False
  then have small: "N \<le> 2 ^ 44" by simp
  have pm: "p - 1 \<le> N" using assms by simp
  have c: "conversion_progress N p = ocr_progress N (p - 1) + int (9 div N)"
    using assms by (simp add: conversion_progress_eq progress_percent_prev)
  have up: "ocr_progress N (p - 1) \<le> 5 + int (90 * (p - 1) div N)"
    by (rule ocr_progress_bounds(1) [OF assms(1) small pm])
  have ds: "int (90 * (p - 1) div N) + int (9 div N) + (if N dvd 90 * p then 1 else 0)
            \<le> int (90 * p div N)"
    using div_share [OF assms(1,2)] by (simp flip: of_nat_add split: if_splits)
  show ?thesis
  proof (cases "N dvd 90 * p")
    case True
    with ds up c ocr_progress_bounds(2) [OF assms(1) small assms(3)] show ?thesis by simp
  next
    case False
    with ds up c ocr_progress_bounds(3) [OF assms(1) small assms(3)] show ?thesis by simp
  qed
qed

section \<open>Properties of the recognition run\<close>

lemma page_loop_nonempty: "page_loop doc N pages acc \<noteq> []"
  by (cases pages) simp_all






lemma page_loop_percents:
  fixes N p :: nat
  assumes "0 < N" "1 \<le> p" "p \<le> Suc N"
  shows "sorted (percents (page_loop doc N [p..<Suc N] acc))
         \<and> (\<forall>x \<in> set (percents (page_loop doc N [p..<Suc N] acc)).
               ocr_progress N (p - 1) \<le> x \<and> x \<le> 100)"
  using assms
proof (induction "Suc N - p" arbitrary: p acc)
  case 0
  then have "p = Suc N" by simp
  then show ?case
    using ocr_progress_last [OF \<open>0 < N\<close>] by simp
next
  case (Suc n)
  then have pN: "p \<le> N" by simp
  then have upt: "[p..<Suc N] = p # [Suc p..<Suc N]"
    by (simp add: upt_conv_Cons)
  have IH: "sorted (percents (page_loop doc N [Suc p..<Suc N] t))
            \<and> (\<forall>x \<in> set (percents (page_loop doc N [Suc p..<Suc N] t)).
                  ocr_progress N p \<le> x \<and> x \<le> 100)" for t
    using Suc.hyps(1) [of "Suc p" t] Suc.hyps(2) Suc.prems pN by simp
  have a: "ocr_progress N (p - 1) \<le> conversion_progress N p"
    using Suc.prems by (simp add: conversion_progress_eq progress_percent_prev)
  have b: "conversion_progress N p \<le> ocr_progress N p"
    using Suc.prems pN by (intro conversion_le_ocr) simp_all
  have c: "ocr_progress N p \<le> 100"
    using ocr_progress_mono [OF pN, of N] ocr_progress_last [OF \<open>0 < N\<close>] by simp
  show ?case
    unfolding upt
    using IH a b c
    by (auto simp: ocr_error_def split: sum.splits list.splits) force+
qed

lemma run_percents_sorted: "sorted (percents (run doc))"
proof (cases "fitz_open doc")
  case (Inl e)
  then show ?thesis by (simp add: run_def ocr_error_def)
next
  case (Inr N)
  show ?thesis
  proof (cases "N = 0")
    case True
    with Inr show ?thesis by (simp add: run_def)
  next
    case False
    then have "0 < N" by simp
    from page_loop_percents [OF this, of 1 doc "[]"]
    show ?thesis
      using Inr False by (auto simp: run_def ocr_progress_0)
  qed
qed

lemma page_loop_finished:
  "last (page_loop doc N pages acc) = Finished t \<Longrightarrow>
   percents (page_loop doc N pages acc) \<noteq> []
   \<and> last (percents (page_loop doc N pages acc)) = 100
   \<and> Progress 100 ''OCR complete!'' \<in> set (page_loop doc N pages acc)"
proof (induction pages arbitrary: acc)
  case Nil
  show ?case by simp
next
  case (Cons p pages)
  then show ?case
    using page_loop_nonempty [of doc N pages]
    by (auto simp: ocr_error_def split: sum.splits list.splits)
qed

lemma run_finished:
  assumes "last (run doc) = Finished t"
  shows "\<exists>N. fitz_open doc = Inr N \<and> 0 < N
             \<and> last (page_loop doc N [1..<N + 1] []) = Finished t"
  using assms page_loop_nonempty [of doc]
  by (auto simp: run_def ocr_error_def split: sum.splits if_splits)

lemma run_finished_percents:
  assumes "last (run doc) = Finished t"
  shows "last (percents (run doc)) = 100"
proof -
  from run_finished [OF assms] obtain N where N: "fitz_open doc = Inr N" "0 < N"
    "last (page_loop doc N [1..<N + 1] []) = Finished t" by blast
  from page_loop_finished [OF N(3)] show ?thesis
    using N(1,2) by (simp add: run_def)
qed





lemma run_four_pages:
  "run four_pages =
     [Progress 0 ''Opening PDF and counting pages...'',
      Progress 5 ''Found 4 page(s). Starting conversion...'',
      Progress 7 ''Converting page 1 of 4 to image...'', ConvertFromPath 1,
      Progress 27 ''Extracting text from page 1 of 4...'', ImageToString 1,
      Progress 29 ''Converting page 2 of 4 to image...'', ConvertFromPath 2,
      Progress 52 ''Converting page 3 of 4 to image...'', ConvertFromPath 3,
      Progress 72 ''Extracting text from page 3 of 4...'', ImageToString 3,
      Progress 74 ''Converting page 4 of 4 to image...'', ConvertFromPath 4,
      Progress 95 ''Extracting text from page 4 of 4...'', ImageToString 4,
      Progress 100 ''OCR complete!'',
      Finished (''apple'' @ [char_of (10::nat)] @ ''pie'' @ [char_of (10::nat)]
                  @ ''pie'' @ [char_of (10::nat)])]"
  by code_simp






subsection \<open>Monotone progress\<close>

lemma run_percents_nonempty: "percents (run doc) \<noteq> [] \<and> hd (percents (run doc)) = 0"
  by (simp add: run_def)

text \<open>
  C4. The percentages emitted by a run, from the opening event on, are non-decreasing
  and start at 0; a successful run (one that ends with \<open>finished\<close>) is a run over
  \<open>N \<ge> 1\<close> pages, and its last percentage is exactly 100.
\<close>

theorem run_percents_nondecreasing:
  "sorted (percents (run doc))
   \<and> hd (percents (run doc)) = 0
   \<and> (last (run doc) = Finished t \<longrightarrow>
        last (percents (run doc)) = 100 \<and> (\<exists>N. 1 \<le> N \<and> fitz_open doc = Inr N))"
proof (intro conjI impI)
  show "sorted (percents (run doc))" by (rule run_percents_sorted)
  show "hd (percents (run doc)) = 0" by (simp add: run_percents_nonempty)
  show "last (percents (run doc)) = 100" if "last (run doc) = Finished t"
    using that by (rule run_finished_percents)
  show "\<exists>N. 1 \<le> N \<and> fitz_open doc = Inr N" if "last (run doc) = Finished t"
    using run_finished [OF that] by auto
qed

theorem run_percents_nondecreasing_witness:
  "last (run four_pages)
     = Finished (''apple'' @ [char_of (10::nat)] @ ''pie'' @ [char_of (10::nat)]
                  @ ''pie'' @ [char_of (10::nat)])
   \<and> sorted (percents (run four_pages))
   \<and> last (percents (run four_pages)) = 100"
proof -
  let ?t = "''apple'' @ [char_of (10::nat)] @ ''pie'' @ [char_of (10::nat)]
                  @ ''pie'' @ [char_of (10::nat)]"
  have fin: "last (run four_pages) = Finished ?t" by (simp add: run_four_pages)
  from run_percents_nondecreasing [of four_pages ?t] fin
  have "sorted (percents (run four_pages)) \<and> last (percents (run four_pages)) = 100"
    by blast
  with fin show ?thesis by blast
qed

subsection \<open>The document without pages\<close>

lemma run_zero_pages:
  "fitz_open doc = Inr 0 \<Longrightarrow>
     run doc = [Progress 0 ''Opening PDF and counting pages...'', Error ''No pages found in PDF'']"
  by (simp add: run_def)

text \<open>
  C7. If the document reports 0 pages, the run emits the opening event and then fails
  with the error "No pages found in PDF" and nothing else: the error is the terminal
  signal of the run, neither the page renderer nor the recognition service is called,
  and nothing is tried again. The handler of the error signal shows the error to the
  user in a critical message box.
\<close>

theorem run_empty_document:
  "fitz_open doc = Inr 0 \<longrightarrow>
     run doc = [Progress 0 ''Opening PDF and counting pages...'', Error ''No pages found in PDF'']
     \<and> filter is_call (run doc) = []
     \<and> terminal_signal (run doc) = Some (Error ''No pages found in PDF'')
     \<and> boxes_shown (on_ocr_error st ''No pages found in PDF'')
         = boxes_shown st
           @ [(Critical, ''OCR Error'',
               ''No pages found in PDF'' @ [char_of (10::nat), char_of (10::nat)]
                 @ ''Please ensure Tesseract OCR is properly installed on your system.'')]"
proof (intro impI conjI)
  assume z: "fitz_open doc = Inr 0"
  show "run doc = [Progress 0 ''Opening PDF and counting pages...'', Error ''No pages found in PDF'']"
    by (rule run_zero_pages [OF z])
  show "filter is_call (run doc) = []"
    by (simp add: run_zero_pages [OF z])
  show "terminal_signal (run doc) = Some (Error ''No pages found in PDF'')"
    by (simp add: run_zero_pages [OF z] terminal_signal_def)
  show "boxes_shown (on_ocr_error st ''No pages found in PDF'')
         = boxes_shown st
           @ [(Critical, ''OCR Error'',
               ''No pages found in PDF'' @ [char_of (10::nat), char_of (10::nat)]
                 @ ''Please ensure Tesseract OCR is properly installed on your system.'')]"
    by (simp add: on_ocr_error_def Let_def close_progress_dialog_fields)
qed

theorem run_empty_document_witness:
  "fitz_open no_pages = Inr 0
   \<and> run no_pages
       = [Progress 0 ''Opening PDF and counting pages...'', Error ''No pages found in PDF'']
   \<and> filter is_call (run no_pages) = []
   \<and> terminal_signal (run no_pages) = Some (Error ''No pages found in PDF'')"
proof -
  have z: "fitz_open no_pages = Inr 0" by (simp add: no_pages_def)
  from run_empty_document [of no_pages initial_app] z
  have "run no_pages
       = [Progress 0 ''Opening PDF and counting pages...'', Error ''No pages found in PDF'']
   \<and> filter is_call (run no_pages) = []
   \<and> terminal_signal (run no_pages) = Some (Error ''No pages found in PDF'')"
    by blast
  with z show ?thesis by blast
qed

subsection \<open>Cancellation\<close>











end
